theory Spec2Isabelle
  imports Main "HOL-Library.Word" "HOL-Library.Sublist"
begin

section \<open>The event emitter of \<^verbatim>\<open>src/include/EventEmitter.h\<close>\<close>

text \<open>
  The class template \<^verbatim>\<open>Rctrl::EventEmitter\<close> is embedded as
  follows.
  \<^item> \<^verbatim>\<open>EventType\<close> is a type parameter \<open>'k\<close> of class \<open>linorder\<close> (the source
    asks for a type "comparable with <"; keys that are equivalent under \<open><\<close> are taken to
    be equal). \<^verbatim>\<open>Event\<close> is an unconstrained type parameter \<open>'e\<close>.
  \<^item> \<^verbatim>\<open>ListenerID = unsigned int\<close> is a \<open>32 word\<close>; \<^verbatim>\<open>lastListenerID++\<close> wraps.
  \<^item> \<^verbatim>\<open>Listener::id\<close> is a C++ \<^verbatim>\<open>int\<close>: the conversions between the unsigned counter
    and the signed field are written out (\<open>to_int\<close>, \<open>to_unsigned\<close>, two's complement).
  \<^item> \<^verbatim>\<open>std::function\<close> is \<open>'cb option\<close>: \<open>None\<close> is the empty function object, for which
    \<^verbatim>\<open>!callback\<close> holds; \<open>Some f\<close> is a callable target \<open>f\<close>.
  \<^item> \<^verbatim>\<open>std::multimap\<close> is an association list kept in key order, in which
    \<^verbatim>\<open>emplace\<close> inserts at the upper bound of the key's range.
  \<^item> Exceptions are values of type \<open>error\<close>.
\<close>

subsection \<open>Data\<close>

datatype error = InvalidArgument | BadFunctionCall | CallbackRaised

text \<open>Conversion \<^verbatim>\<open>unsigned int\<close> to \<^verbatim>\<open>int\<close> (line 36) and back (lines 41 and 52): both
  keep the 32 bits (what C++20 prescribes and earlier compilers do for two's complement).\<close>

definition to_int :: "32 word \<Rightarrow> int" where
  "to_int w = sint w"

definition to_unsigned :: "int \<Rightarrow> 32 word" where
  "to_unsigned n = word_of_int n"

text \<open>\<^verbatim>\<open>struct Listener { int id; CallbackFunction callback; }\<close>\<close>

record 'cb Listener =
  id' :: int
  callback :: "'cb option"

text \<open>The data members \<^verbatim>\<open>listeners\<close> and \<^verbatim>\<open>lastListenerID\<close>.\<close>

record ('k, 'cb) EventEmitter =
  listeners :: "('k \<times> 'cb Listener) list"
  lastListenerID :: "32 word"

text \<open>\<^verbatim>\<open>EventEmitter() {}\<close> with the member initialiser \<^verbatim>\<open>lastListenerID = 0\<close>.\<close>

definition EventEmitter_new :: "('k, 'cb) EventEmitter" where
  "EventEmitter_new = \<lparr>listeners = [], lastListenerID = 0\<rparr>"

subsection \<open>The multimap operations the class uses\<close>

text \<open>The representation invariant of the multimap: keys in non-decreasing order.\<close>

definition multimap :: "('k::linorder \<times> 'v) list \<Rightarrow> bool" where
  "multimap xs = sorted (map fst xs)"

text \<open>\<^verbatim>\<open>emplace\<close>: the new element goes to the end of the range of equivalent keys.\<close>

fun emplace :: "'k::linorder \<Rightarrow> 'v \<Rightarrow> ('k \<times> 'v) list \<Rightarrow> ('k \<times> 'v) list" where
  "emplace k v [] = [(k, v)]"
| "emplace k v (p # ps) = (if k < fst p then (k, v) # p # ps else p # emplace k v ps)"

text \<open>\<^verbatim>\<open>equal_range\<close>: from the lower bound (first key not less than \<open>k\<close>) up to the
  upper bound (first key greater than \<open>k\<close>).\<close>

definition equal_range :: "'k::linorder \<Rightarrow> ('k \<times> 'v) list \<Rightarrow> ('k \<times> 'v) list" where
  "equal_range k xs = takeWhile (\<lambda>p. \<not> k < fst p) (dropWhile (\<lambda>p. fst p < k) xs)"

subsection \<open>addListener (lines 29 to 42)\<close>

definition addListener ::
  "'k::linorder \<Rightarrow> 'cb option \<Rightarrow> ('k, 'cb) EventEmitter \<Rightarrow>
     (error + 32 word) \<times> ('k, 'cb) EventEmitter" where
  "addListener eventType cb em =
     (if cb = None then (Inl InvalidArgument, em)
      else
        let listenerID = to_int (lastListenerID em);
            em1 = em\<lparr>lastListenerID := lastListenerID em + 1\<rparr>;
            listener = \<lparr>id' = listenerID, callback = cb\<rparr>;
            em2 = em1\<lparr>listeners := emplace eventType listener (listeners em1)\<rparr>
        in (Inr (to_unsigned listenerID), em2))"

subsection \<open>removeListener (lines 47 to 61)\<close>

text \<open>The iterator loop: an element whose id equals the argument (the \<^verbatim>\<open>int\<close> field
  converted to \<^verbatim>\<open>unsigned int\<close> for the comparison) is erased, any other is stepped over.\<close>

fun removeListener_loop ::
  "32 word \<Rightarrow> ('k \<times> 'cb Listener) list \<Rightarrow> ('k \<times> 'cb Listener) list" where
  "removeListener_loop i [] = []"
| "removeListener_loop i (it # rest) =
     (if to_unsigned (id' (snd it)) = i then removeListener_loop i rest
      else it # removeListener_loop i rest)"

definition removeListener :: "32 word \<Rightarrow> ('k, 'cb) EventEmitter \<Rightarrow> ('k, 'cb) EventEmitter" where
  "removeListener i em = em\<lparr>listeners := removeListener_loop i (listeners em)\<rparr>"

subsection \<open>emit (lines 70 to 87)\<close>

text \<open>
  What calling a callback does is not part of the class: it is the parameter \<open>invoke\<close>.
  A call gets the target, the event type and the event, and acts on everything the
  callback can reach, which is the emitter itself (a callback may call addListener and
  removeListener) and the rest of the program's state \<open>'w\<close>. It returns normally (\<open>None\<close>)
  or leaves by an exception (\<open>Some x\<close>).
\<close>

type_synonym ('k, 'cb, 'e, 'w) invoke =
  "'cb \<Rightarrow> 'k \<Rightarrow> 'e \<Rightarrow> ('k, 'cb) EventEmitter \<times> 'w \<Rightarrow>
     error option \<times> (('k, 'cb) EventEmitter \<times> 'w)"

text \<open>
  The range-for loop over \<^verbatim>\<open>matchingListeners\<close> (lines 83 to 86). The first component of
  the result lists the calls made, each with the listener whose callback was called and
  the two arguments passed; the second is the exception that ended the loop, if any. Calling
  an empty \<^verbatim>\<open>std::function\<close> throws \<^verbatim>\<open>std::bad_function_call\<close> and calls nothing. The
  loop has no handler, so an exception ends it.
\<close>

fun emit_loop ::
  "('k, 'cb, 'e, 'w) invoke \<Rightarrow> 'k \<Rightarrow> 'e \<Rightarrow> ('k \<times> 'cb Listener) list \<Rightarrow>
     ('k, 'cb) EventEmitter \<times> 'w \<Rightarrow>
     ('cb Listener \<times> 'k \<times> 'e) list \<times> error option \<times> (('k, 'cb) EventEmitter \<times> 'w)" where
  "emit_loop invoke eventType event [] s = ([], None, s)"
| "emit_loop invoke eventType event (listener # rest) s =
     (case callback (snd listener) of
        None \<Rightarrow> ([], Some BadFunctionCall, s)
      | Some f \<Rightarrow>
          (case invoke f eventType event s of
             (Some x, s') \<Rightarrow> ([(snd listener, eventType, event)], Some x, s')
           | (None, s') \<Rightarrow>
               (case emit_loop invoke eventType event rest s' of
                  (calls, res, s'') \<Rightarrow> ((snd listener, eventType, event) # calls, res, s''))))"

text \<open>The snapshot (lines 72 to 80: the range of \<^verbatim>\<open>equal_range\<close> copied, in order, into the
  empty vector), then the loop.\<close>

definition emit ::
  "('k::linorder, 'cb, 'e, 'w) invoke \<Rightarrow> 'k \<Rightarrow> 'e \<Rightarrow> ('k, 'cb) EventEmitter \<times> 'w \<Rightarrow>
     ('cb Listener \<times> 'k \<times> 'e) list \<times> error option \<times> (('k, 'cb) EventEmitter \<times> 'w)" where
  "emit invoke eventType event s =
     (let matchingListeners = equal_range eventType (listeners (fst s))
      in emit_loop invoke eventType event matchingListeners s)"

subsection \<open>Observing the calls that emit makes\<close>

text \<open>
  To speak of the calls themselves, the callbacks are made to leave a record: \<open>recorded invoke\<close>
  is the callback behaviour \<open>invoke\<close> that in addition appends, to a list kept in the program's
  state, the target called, the two arguments received and how the call ended. The list
  changes only when a callback is called, so after an emission that starts with the empty
  list it holds the calls that emit has made, in the order in which it made them.
\<close>

record ('k, 'cb, 'e) application =
  target :: 'cb
  eventType_passed :: 'k
  event_passed :: 'e
  outcome :: "error option"

definition recorded ::
  "('k, 'cb, 'e, 'w) invoke \<Rightarrow> ('k, 'cb, 'e, 'w \<times> ('k, 'cb, 'e) application list) invoke" where
  "recorded invoke f eventType event s =
     (case invoke f eventType event (fst s, fst (snd s)) of
        (r, s') \<Rightarrow>
          (r, (fst s', (snd s',
             snd (snd s) @ [\<lparr>target = f, eventType_passed = eventType, event_passed = event,
                             outcome = r\<rparr>]))))"

definition applications ::
  "('k::linorder, 'cb, 'e, 'w) invoke \<Rightarrow> 'k \<Rightarrow> 'e \<Rightarrow> ('k, 'cb) EventEmitter \<times> 'w \<Rightarrow>
     ('k, 'cb, 'e) application list" where
  "applications invoke eventType event s =
     snd (snd (snd (snd (emit (recorded invoke) eventType event (fst s, (snd s, []))))))"

subsection \<open>Sequences of calls on one emitter\<close>

text \<open>
  A history is the sequence of addListener and removeListener calls made on one emitter,
  by whoever makes them (a callback that re-enters the emitter during an emission makes
  calls of this sequence too).
\<close>

datatype ('k, 'cb) call = AddListener 'k "'cb option" | RemoveListener "32 word"

fun perform :: "('k::linorder, 'cb) call \<Rightarrow> ('k, 'cb) EventEmitter \<Rightarrow> ('k, 'cb) EventEmitter" where
  "perform (AddListener eventType cb) em = snd (addListener eventType cb em)"
| "perform (RemoveListener i) em = removeListener i em"

fun perform_all ::
  "('k::linorder, 'cb) call list \<Rightarrow> ('k, 'cb) EventEmitter \<Rightarrow> ('k, 'cb) EventEmitter" where
  "perform_all [] em = em"
| "perform_all (c # cs) em = perform_all cs (perform c em)"

text \<open>The identifiers the addListener calls of a history return, in call order.\<close>

fun returned_ids :: "('k::linorder, 'cb) call list \<Rightarrow> ('k, 'cb) EventEmitter \<Rightarrow> 32 word list" where
  "returned_ids [] em = []"
| "returned_ids (AddListener eventType cb # cs) em =
     (case addListener eventType cb em of
        (Inl x, em') \<Rightarrow> returned_ids cs em'
      | (Inr i, em') \<Rightarrow> i # returned_ids cs em')"
| "returned_ids (RemoveListener i # cs) em = returned_ids cs (removeListener i em)"

text \<open>The number of addListener calls of a history that pass the callback check.\<close>

fun successful_adds :: "('k, 'cb) call list \<Rightarrow> nat" where
  "successful_adds [] = 0"
| "successful_adds (AddListener eventType cb # cs) =
     (if cb = None then successful_adds cs else Suc (successful_adds cs))"
| "successful_adds (RemoveListener i # cs) = successful_adds cs"

text \<open>The entries that the addListener calls of a history insert, in call order, whether
  or not a later call removes them.\<close>

fun inserted ::
  "('k::linorder, 'cb) call list \<Rightarrow> ('k, 'cb) EventEmitter \<Rightarrow> ('k \<times> 'cb Listener) list" where
  "inserted [] em = []"
| "inserted (AddListener eventType cb # cs) em =
     (if cb = None then inserted cs (perform (AddListener eventType cb) em)
      else (eventType, \<lparr>id' = to_int (lastListenerID em), callback = cb\<rparr>)
             # inserted cs (perform (AddListener eventType cb) em))"
| "inserted (RemoveListener i # cs) em = inserted cs (removeListener i em)"

text \<open>
  Registration order, in the words of the claim about dispatch order: the entries
  registered and not removed since, oldest first. It is kept beside the emitter, whose
  counter gives each new entry its id.
\<close>

fun registration_order ::
  "('k::linorder, 'cb) call list \<Rightarrow> ('k, 'cb) EventEmitter \<Rightarrow> ('k \<times> 'cb Listener) list \<Rightarrow>
     ('k \<times> 'cb Listener) list" where
  "registration_order [] em log = log"
| "registration_order (AddListener eventType cb # cs) em log =
     registration_order cs (perform (AddListener eventType cb) em)
       (if cb = None then log
        else log @ [(eventType, \<lparr>id' = to_int (lastListenerID em), callback = cb\<rparr>)])"
| "registration_order (RemoveListener i # cs) em log =
     registration_order cs (removeListener i em)
       (filter (\<lambda>p. to_unsigned (id' (snd p)) \<noteq> i) log)"

subsection \<open>Invariants of the state\<close>

text \<open>The ids stored in the map, as the \<^verbatim>\<open>unsigned int\<close> values removeListener compares.\<close>

definition stored_ids :: "('k, 'cb) EventEmitter \<Rightarrow> 32 word list" where
  "stored_ids em = map (\<lambda>p. to_unsigned (id' (snd p))) (listeners em)"

definition ids_below_counter :: "('k, 'cb) EventEmitter \<Rightarrow> bool" where
  "ids_below_counter em = list_all (\<lambda>i. i < lastListenerID em) (stored_ids em)"

subsection \<open>The lock\<close>

text \<open>
  The accesses an operation makes to the shared members and to \<^verbatim>\<open>listenersMutex\<close>, in
  program order. \<^verbatim>\<open>lastListenerID++\<close> on a plain \<^verbatim>\<open>unsigned int\<close> is a read followed by
  a write; a \<^verbatim>\<open>std::lock_guard\<close> acquires where it is declared and releases at the end
  of its block.
\<close>

datatype access =
  Acquire | Release | ReadCounter | WriteCounter | ReadListeners | WriteListeners | Invoke

text \<open>Line 31 (no access when the callback is empty), then lines 36, 37, 39 and 41.\<close>

definition addListener_accesses :: "'cb option \<Rightarrow> access list" where
  "addListener_accesses cb =
     (if cb = None then []
      else [ReadCounter, WriteCounter, Acquire, WriteListeners, Release])"

text \<open>Line 49, the loop of lines 50 to 60 (a read for each comparison, a write for each
  erase), and the end of the function.\<close>

fun removeListener_loop_accesses :: "32 word \<Rightarrow> ('k \<times> 'cb Listener) list \<Rightarrow> access list" where
  "removeListener_loop_accesses i [] = []"
| "removeListener_loop_accesses i (it # rest) =
     (if to_unsigned (id' (snd it)) = i
      then ReadListeners # WriteListeners # removeListener_loop_accesses i rest
      else ReadListeners # removeListener_loop_accesses i rest)"

definition removeListener_accesses :: "32 word \<Rightarrow> ('k, 'cb) EventEmitter \<Rightarrow> access list" where
  "removeListener_accesses i em =
     Acquire # removeListener_loop_accesses i (listeners em) @ [Release]"

text \<open>Lines 76 to 80 (the inner block), then one call for each element of the vector.\<close>

definition emit_accesses :: "'k::linorder \<Rightarrow> ('k, 'cb) EventEmitter \<Rightarrow> access list" where
  "emit_accesses eventType em =
     [Acquire, ReadListeners, Release]
     @ map (\<lambda>listener. Invoke) (equal_range eventType (listeners em))"

text \<open>The discipline: every access to the counter or to the map is made while the lock is
  held. The first argument says whether the lock is held at the start.\<close>

fun lock_guards_accesses :: "bool \<Rightarrow> access list \<Rightarrow> bool" where
  "lock_guards_accesses held [] = True"
| "lock_guards_accesses held (Acquire # as) = lock_guards_accesses True as"
| "lock_guards_accesses held (Release # as) = lock_guards_accesses False as"
| "lock_guards_accesses held (Invoke # as) = lock_guards_accesses held as"
| "lock_guards_accesses held (a # as) = (held \<and> lock_guards_accesses held as)"

subsection \<open>Two threads in addListener\<close>

text \<open>
  addListener with a valid callback, one step for each access of the listing above. A
  thread keeps what it has read of the counter (\<open>loaded\<close>) and its local variable
  \<^verbatim>\<open>listenerID\<close>; the emitter and the mutex are shared. A thread that finds the mutex
  locked at line 37 waits (its step changes nothing).
\<close>

datatype pc = Line36_read | Line36_write | Line37 | Line39 | Line41 | Returned

record ('k, 'cb) addListener_thread =
  at :: pc
  eventType_arg :: 'k
  callback_arg :: "'cb option"
  loaded :: "32 word"
  listenerID :: int

record ('k, 'cb) shared =
  emitter :: "('k, 'cb) EventEmitter"
  mutex_locked :: bool

definition addListener_call :: "'k \<Rightarrow> 'cb option \<Rightarrow> ('k, 'cb) addListener_thread" where
  "addListener_call eventType cb =
     \<lparr>at = Line36_read, eventType_arg = eventType, callback_arg = cb, loaded = 0,
      listenerID = 0\<rparr>"

fun addListener_step ::
  "('k::linorder, 'cb) addListener_thread \<Rightarrow> ('k, 'cb) shared \<Rightarrow>
     ('k, 'cb) addListener_thread \<times> ('k, 'cb) shared" where
  "addListener_step th sh =
     (case at th of
        Line36_read \<Rightarrow>
          (th\<lparr>at := Line36_write, loaded := lastListenerID (emitter sh)\<rparr>, sh)
      | Line36_write \<Rightarrow>
          (th\<lparr>at := Line37, listenerID := to_int (loaded th)\<rparr>,
           sh\<lparr>emitter := (emitter sh)\<lparr>lastListenerID := loaded th + 1\<rparr>\<rparr>)
      | Line37 \<Rightarrow>
          (if mutex_locked sh then (th, sh)
           else (th\<lparr>at := Line39\<rparr>, sh\<lparr>mutex_locked := True\<rparr>))
      | Line39 \<Rightarrow>
          (th\<lparr>at := Line41\<rparr>,
           sh\<lparr>emitter := (emitter sh)\<lparr>listeners :=
                emplace (eventType_arg th) \<lparr>id' = listenerID th, callback = callback_arg th\<rparr>
                  (listeners (emitter sh))\<rparr>\<rparr>)
      | Line41 \<Rightarrow> (th\<lparr>at := Returned\<rparr>, sh\<lparr>mutex_locked := False\<rparr>)
      | Returned \<Rightarrow> (th, sh))"

text \<open>A schedule says which of two threads takes the next step (\<open>False\<close> the first).\<close>

fun interleave ::
  "bool list \<Rightarrow>
   ('k::linorder, 'cb) addListener_thread \<times> ('k, 'cb) addListener_thread \<times> ('k, 'cb) shared \<Rightarrow>
   ('k, 'cb) addListener_thread \<times> ('k, 'cb) addListener_thread \<times> ('k, 'cb) shared" where
  "interleave [] st = st"
| "interleave (second # sched) (t1, t2, sh) =
     (if second
      then (case addListener_step t2 sh of (t2', sh') \<Rightarrow> interleave sched (t1, t2', sh'))
      else (case addListener_step t1 sh of (t1', sh') \<Rightarrow> interleave sched (t1', t2, sh')))"

definition both_read_first :: "bool list" where
  "both_read_first =
     [False, True, False, True, False, False, False, True, True, True]"

subsection \<open>A history that wraps the counter\<close>

text \<open>
  One listener is registered and kept; then each of the next \<open>2 ^ 32 - 1\<close> registrations is
  removed as soon as it is made, so that the map never holds more than two entries. The
  event types and the callback targets are natural numbers here.
\<close>

definition add_then_remove :: "nat \<Rightarrow> nat \<Rightarrow> (nat, nat) call list" where
  "add_then_remove a b =
     concat (map (\<lambda>j. [AddListener 0 (Some 1), RemoveListener (of_nat j)]) [a..<b])"

definition wrapping_history :: "(nat, nat) call list" where
  "wrapping_history = AddListener 0 (Some 0) # add_then_remove 1 (2 ^ 32)"

subsection \<open>Callbacks used in the examples\<close>

text \<open>A callback that does nothing; one whose target \<open>0\<close> throws; and one that registers
  its own target again for the event type it is called with, through addListener.\<close>

definition returns_normally :: "('k, 'cb, 'e, 'w) invoke" where
  "returns_normally f eventType event s = (None, s)"

definition target_0_raises :: "('k, nat, 'e, 'w) invoke" where
  "target_0_raises f eventType event s =
     (if f = 0 then (Some CallbackRaised, s) else (None, s))"


subsection \<open>An emitter used in the examples\<close>

text \<open>Three registrations on a new emitter: targets \<open>10\<close> and \<open>12\<close> for event type \<open>0\<close>,
  target \<open>11\<close> for event type \<open>1\<close>.\<close>

definition example_history :: "(nat, nat) call list" where
  "example_history = [AddListener 0 (Some 10), AddListener 1 (Some 11), AddListener 0 (Some 12)]"

definition example_emitter :: "(nat, nat) EventEmitter" where
  "example_emitter = perform_all example_history EventEmitter_new"

section \<open>Auxiliary facts\<close>

subsection \<open>Conversions, the removal loop and the multimap\<close>

lemma to_unsigned_to_int: "to_unsigned (to_int w) = w"
  by (simp add: to_unsigned_def to_int_def)

lemma removeListener_loop_filter:
  "removeListener_loop i xs = filter (\<lambda>p. to_unsigned (id' (snd p)) \<noteq> i) xs"
  by (induction xs) auto

lemma set_emplace: "set (emplace k v xs) = insert (k, v) (set xs)"
  by (induction xs) auto

lemma multimap_emplace: "multimap xs \<Longrightarrow> multimap (emplace k v xs)"
  unfolding multimap_def
  by (induction xs) (auto simp: set_emplace)

lemma multimap_filter: "multimap xs \<Longrightarrow> multimap (filter P xs)"
  unfolding multimap_def
  by (induction xs) auto

lemma filter_key_above:
  "\<forall>p\<in>set xs. (c::'k::linorder) < fst p \<Longrightarrow> filter (\<lambda>p. fst p = c) xs = []"
  by (induction xs) auto

lemma equal_range_above:
  "\<forall>p\<in>set xs. c < fst p \<Longrightarrow> equal_range c xs = []"
  unfolding equal_range_def by (cases xs) auto

lemma equal_range_filter:
  "multimap xs \<Longrightarrow> equal_range k xs = filter (\<lambda>p. fst p = k) xs"
proof (induction xs)
  case Nil
  then show ?case by (simp add: equal_range_def)
next
  case (Cons p ps)
  then have ps: "multimap ps" and le: "\<forall>q\<in>set ps. fst p \<le> fst q"
    by (auto simp: multimap_def)
  consider "fst p < k" | "fst p = k" | "k < fst p" by (cases "fst p" k rule: linorder_cases) auto
  then show ?case
  proof cases
    case 1
    then show ?thesis using Cons.IH [OF ps] by (simp add: equal_range_def)
  next
    case 2
    have "equal_range k (p # ps) = p # takeWhile (\<lambda>q. \<not> k < fst q) ps"
      using 2 by (simp add: equal_range_def)
    moreover have "dropWhile (\<lambda>q. fst q < k) ps = ps"
      using le 2 by (cases ps) auto
    ultimately show ?thesis using Cons.IH [OF ps] 2 by (simp add: equal_range_def)
  next
    case 3
    then have "\<forall>q\<in>set (p # ps). k < fst q" using le by auto
    then show ?thesis
      using equal_range_above [of "p # ps" k] filter_key_above [of "p # ps" k] by simp
  qed
qed

lemma filter_key_emplace:
  "multimap xs \<Longrightarrow> filter (\<lambda>p. fst p = c) (emplace k v xs)
     = (if k = c then filter (\<lambda>p. fst p = c) xs @ [(k, v)] else filter (\<lambda>p. fst p = c) xs)"
proof (induction xs)
  case Nil
  then show ?case by simp
next
  case (Cons p ps)
  then have ps: "multimap ps" and le: "\<forall>q\<in>set ps. fst p \<le> fst q"
    by (auto simp: multimap_def)
  show ?case
  proof (cases "k < fst p")
    case True
    then have "\<forall>q\<in>set (p # ps). k < fst q" using le by auto
    then have "filter (\<lambda>p. fst p = k) (p # ps) = []" by (rule filter_key_above)
    then show ?thesis using True by auto
  next
    case False
    then show ?thesis using Cons.IH [OF ps] by auto
  qed
qed

lemma emit_loop_calls:
  "emit_loop invoke t e ls s = (calls, res, s') \<Longrightarrow>
     prefix calls (map (\<lambda>l. (snd l, t, e)) ls)
     \<and> (res = None \<longrightarrow> calls = map (\<lambda>l. (snd l, t, e)) ls)"
  by (induction ls arbitrary: s calls res s') (auto split: option.splits prod.splits)

subsection \<open>The counter and the identifiers returned\<close>

lemma lastListenerID_addListener:
  "lastListenerID (snd (addListener t cb em)) =
     (if cb = None then lastListenerID em else lastListenerID em + 1)"
  by (simp add: addListener_def Let_def)

lemma lastListenerID_removeListener:
  "lastListenerID (removeListener i em) = lastListenerID em"
  by (simp add: removeListener_def)

lemma lastListenerID_perform_all:
  "lastListenerID (perform_all cs em) = lastListenerID em + of_nat (successful_adds cs)"
proof (induction cs arbitrary: em)
  case Nil
  then show ?case by simp
next
  case (Cons c cs)
  then show ?case
    by (cases c) (simp_all add: lastListenerID_addListener lastListenerID_removeListener)
qed

lemma fst_addListener:
  "fst (addListener t cb em) = (if cb = None then Inl InvalidArgument else Inr (lastListenerID em))"
  by (simp add: addListener_def Let_def to_unsigned_to_int)

lemma returned_ids_eq:
  "returned_ids cs em = map (\<lambda>j. lastListenerID em + of_nat j) [0..<successful_adds cs]"
proof (induction cs arbitrary: em)
  case Nil
  then show ?case by simp
next
  case (Cons c cs)
  show ?case
  proof (cases c)
    case (AddListener t cb)
    show ?thesis
    proof (cases cb)
      case None
      then show ?thesis using AddListener Cons.IH [of em]
        by (simp add: addListener_def)
    next
      case (Some f)
      obtain r em' where r: "addListener t (Some f) em = (r, em')" by (cases "addListener t (Some f) em")
      have r1: "r = Inr (lastListenerID em)" using fst_addListener [of t "Some f" em] r by simp
      have r2: "lastListenerID em' = lastListenerID em + 1"
        using lastListenerID_addListener [of t "Some f" em] r by simp
      show ?thesis using AddListener Some r r1 r2 Cons.IH [of em']
        by (simp add: map_upt_Suc del: upt_Suc)
    qed
  next
    case (RemoveListener i)
    then show ?thesis using Cons.IH [of "removeListener i em"]
      by (simp add: lastListenerID_removeListener)
  qed
qed

lemma of_nat_32_inj:
  "j < 2 ^ 32 \<Longrightarrow> k < 2 ^ 32 \<Longrightarrow> (of_nat j :: 32 word) = of_nat k \<Longrightarrow> j = k"
proof -
  assume j: "j < 2 ^ 32" and k: "k < 2 ^ 32" and eq: "(of_nat j :: 32 word) = of_nat k"
  from eq have "unat (of_nat j :: 32 word) = unat (of_nat k :: 32 word)" by simp
  then show "j = k" using j k by (simp add: unat_of_nat)
qed

lemma returned_ids_distinct:
  assumes "successful_adds cs \<le> 2 ^ 32"
  shows "distinct (returned_ids cs em)"
proof -
  have "inj_on (\<lambda>j. lastListenerID em + (of_nat j :: 32 word)) {0..<successful_adds cs}"
    using assms by (auto simp: inj_on_def intro: of_nat_32_inj)
  then show ?thesis by (simp add: returned_ids_eq distinct_map)
qed

subsection \<open>The map after a call\<close>

lemma listeners_addListener:
  "listeners (snd (addListener t cb em)) =
     (if cb = None then listeners em
      else emplace t \<lparr>id' = to_int (lastListenerID em), callback = cb\<rparr> (listeners em))"
  by (simp add: addListener_def Let_def)

lemma listeners_removeListener:
  "listeners (removeListener i em) = filter (\<lambda>p. to_unsigned (id' (snd p)) \<noteq> i) (listeners em)"
  by (simp add: removeListener_def removeListener_loop_filter)

lemma multimap_perform: "multimap (listeners em) \<Longrightarrow> multimap (listeners (perform c em))"
  by (cases c) (simp_all add: listeners_addListener listeners_removeListener multimap_emplace multimap_filter)

lemma multimap_perform_all: "multimap (listeners em) \<Longrightarrow> multimap (listeners (perform_all cs em))"
  by (induction cs arbitrary: em) (simp_all add: multimap_perform)

lemma multimap_new: "multimap (listeners EventEmitter_new)"
  by (simp add: EventEmitter_new_def multimap_def)

lemma set_listeners_perform_all:
  "set (listeners (perform_all cs em)) \<subseteq> set (listeners em) \<union> set (inserted cs em)"
proof (induction cs arbitrary: em)
  case Nil
  then show ?case by simp
next
  case (Cons c cs)
  show ?case
  proof (cases c)
    case (AddListener t cb)
    then show ?thesis using Cons.IH [of "perform c em"]
      by (auto simp: listeners_addListener set_emplace split: if_splits)
  next
    case (RemoveListener i)
    then show ?thesis using Cons.IH [of "removeListener i em"]
      by (auto simp: listeners_removeListener)
  qed
qed

lemma set_equal_range: "set (equal_range k xs) \<subseteq> set xs"
  unfolding equal_range_def
  by (meson set_takeWhileD set_dropWhileD subsetI)

lemma emit_calls_from_snapshot:
  "set (fst (emit invoke t e s)) \<subseteq> (\<lambda>l. (snd l, t, e)) ` set (equal_range t (listeners (fst s)))"
proof -
  obtain calls res s' where r: "emit_loop invoke t e (equal_range t (listeners (fst s))) s = (calls, res, s')"
    by (cases "emit_loop invoke t e (equal_range t (listeners (fst s))) s")
  have "set calls \<subseteq> set (map (\<lambda>l. (snd l, t, e)) (equal_range t (listeners (fst s))))"
    using emit_loop_calls [OF r] set_mono_prefix by blast
  then show ?thesis using r by (simp add: emit_def)
qed

lemma stored_ids_addListener:
  "set (stored_ids (snd (addListener t cb em))) =
     (if cb = None then set (stored_ids em) else insert (lastListenerID em) (set (stored_ids em)))"
  by (auto simp: stored_ids_def listeners_addListener set_emplace to_unsigned_to_int)

lemma stored_ids_removeListener:
  "stored_ids (removeListener i em) = filter (\<lambda>j. j \<noteq> i) (stored_ids em)"
  by (simp add: stored_ids_def listeners_removeListener filter_map comp_def)

lemma stored_ids_subset_returned:
  "set (stored_ids (perform_all cs em)) \<subseteq> set (stored_ids em) \<union> set (returned_ids cs em)"
proof (induction cs arbitrary: em)
  case Nil
  then show ?case by simp
next
  case (Cons c cs)
  show ?case
  proof (cases c)
    case (AddListener t cb)
    obtain r em' where r: "addListener t cb em = (r, em')" by (cases "addListener t cb em")
    have "set (stored_ids em') \<subseteq> set (stored_ids em) \<union> (if cb = None then {} else {lastListenerID em})"
      using stored_ids_addListener [of t cb em] r by auto
    moreover have "r = (if cb = None then Inl InvalidArgument else Inr (lastListenerID em))"
      using fst_addListener [of t cb em] r by simp
    ultimately show ?thesis using AddListener r Cons.IH [of em']
      by (auto split: if_splits)
  next
    case (RemoveListener i)
    then show ?thesis using Cons.IH [of "removeListener i em"]
      by (auto simp: stored_ids_removeListener)
  qed
qed

lemma removeListener_absent:
  "i \<notin> set (stored_ids em) \<Longrightarrow> removeListener i em = em"
proof -
  assume "i \<notin> set (stored_ids em)"
  then have "filter (\<lambda>p. to_unsigned (id' (snd p)) \<noteq> i) (listeners em) = listeners em"
    by (auto simp: stored_ids_def filter_id_conv)
  then show ?thesis by (simp add: removeListener_def removeListener_loop_filter)
qed

lemma removeListener_idem: "removeListener i (removeListener i em) = removeListener i em"
  by (simp add: removeListener_def removeListener_loop_filter)

subsection \<open>Stored ids while the counter has not wrapped\<close>

lemma distinct_map_emplace:
  "distinct (map g (emplace k v xs)) \<longleftrightarrow> g (k, v) \<notin> g ` set xs \<and> distinct (map g xs)"
  by (induction xs) (auto simp: set_emplace)

lemma length_emplace: "length (emplace k v xs) = Suc (length xs)"
  by (induction xs) auto

lemma issued_invariant_perform_all:
  assumes "lastListenerID em = of_nat n"
    and "set (stored_ids em) \<subseteq> of_nat ` {..<n}"
    and "distinct (stored_ids em)"
    and "n + successful_adds cs \<le> 2 ^ 32"
  shows "set (stored_ids (perform_all cs em)) \<subseteq> of_nat ` {..<n + successful_adds cs}
         \<and> distinct (stored_ids (perform_all cs em))"
  using assms
proof (induction cs arbitrary: em n)
  case Nil
  then show ?case by simp
next
  case (Cons c cs)
  show ?case
  proof (cases c)
    case (AddListener t cb)
    show ?thesis
    proof (cases cb)
      case None
      then have "perform c em = em" using AddListener by (simp add: addListener_def)
      then show ?thesis using Cons.IH [of em n] Cons.prems AddListener None by simp
    next
      case (Some f)
      let ?em = "perform c em"
      have n: "n < 2 ^ 32" using Cons.prems(4) AddListener Some by simp
      have c1: "lastListenerID ?em = of_nat (Suc n)"
        using AddListener Some Cons.prems(1) by (simp add: lastListenerID_addListener)
      have fresh: "(of_nat n :: 32 word) \<notin> of_nat ` {..<n}"
        using n by (auto dest: of_nat_32_inj [rotated 2])
      have c2: "set (stored_ids ?em) \<subseteq> of_nat ` {..<Suc n}"
        using AddListener Some Cons.prems(1,2) stored_ids_addListener [of t cb em]
        by (auto simp: lessThan_Suc)
      have c3: "distinct (stored_ids ?em)"
        using AddListener Some Cons.prems(1,2,3) fresh
        by (auto simp: stored_ids_def listeners_addListener distinct_map_emplace to_unsigned_to_int)
      show ?thesis using Cons.IH [OF c1 c2 c3] Cons.prems(4) AddListener Some by simp
    qed
  next
    case (RemoveListener i)
    let ?em = "removeListener i em"
    have "lastListenerID ?em = of_nat n" using Cons.prems(1) by (simp add: lastListenerID_removeListener)
    moreover have "set (stored_ids ?em) \<subseteq> of_nat ` {..<n}"
      using Cons.prems(2) by (auto simp: stored_ids_removeListener)
    moreover have "distinct (stored_ids ?em)"
      using Cons.prems(3) by (simp add: stored_ids_removeListener)
    ultimately show ?thesis using Cons.IH [of ?em n] Cons.prems(4) RemoveListener by simp
  qed
qed

lemma stored_ids_new [simp]: "stored_ids EventEmitter_new = []"
  by (simp add: stored_ids_def EventEmitter_new_def)

lemma lastListenerID_new [simp]: "lastListenerID EventEmitter_new = 0"
  by (simp add: EventEmitter_new_def)

lemma new_stored_ids:
  assumes "successful_adds cs \<le> 2 ^ 32"
  shows "set (stored_ids (perform_all cs EventEmitter_new)) \<subseteq> of_nat ` {..<successful_adds cs}"
    and "distinct (stored_ids (perform_all cs EventEmitter_new))"
  using issued_invariant_perform_all [of EventEmitter_new 0 cs] assms by simp_all

lemma of_nat_32_less:
  "j < n \<Longrightarrow> n < 2 ^ 32 \<Longrightarrow> (of_nat j :: 32 word) < of_nat n"
  by (simp add: word_less_nat_alt unat_of_nat)

lemma new_ids_below_counter:
  assumes "successful_adds cs < 2 ^ 32"
  shows "ids_below_counter (perform_all cs EventEmitter_new)"
proof -
  have "set (stored_ids (perform_all cs EventEmitter_new)) \<subseteq> of_nat ` {..<successful_adds cs}"
    using new_stored_ids(1) [of cs] assms by simp
  moreover have "lastListenerID (perform_all cs EventEmitter_new) = of_nat (successful_adds cs)"
    by (simp add: lastListenerID_perform_all)
  ultimately show ?thesis using assms
    unfolding ids_below_counter_def list_all_iff
    by (fastforce intro: of_nat_32_less)
qed

lemma length_filter_distinct:
  "distinct (map g xs) \<Longrightarrow> length xs \<le> Suc (length (filter (\<lambda>p. g p \<noteq> i) xs))"
proof (induction xs)
  case Nil
  then show ?case by simp
next
  case (Cons p ps)
  show ?case
  proof (cases "g p = i")
    case True
    have "g p \<notin> g ` set ps" using Cons.prems by simp
    then have "\<forall>q\<in>set ps. g q \<noteq> i" using True by blast
    then have "filter (\<lambda>p. g p \<noteq> i) ps = ps" by (simp add: filter_id_conv)
    then show ?thesis using True by simp
  next
    case False
    then show ?thesis using Cons by simp
  qed
qed

lemma removeListener_at_most_one:
  "distinct (stored_ids em) \<Longrightarrow>
     length (listeners em) \<le> Suc (length (listeners (removeListener i em)))"
  unfolding stored_ids_def listeners_removeListener
  by (rule length_filter_distinct)

subsection \<open>Registration order\<close>

lemma registration_order_correct:
  assumes "multimap (listeners em)"
    and "\<forall>c. filter (\<lambda>p. fst p = c) (listeners em) = filter (\<lambda>p. fst p = c) log"
  shows "filter (\<lambda>p. fst p = c) (listeners (perform_all cs em))
           = filter (\<lambda>p. fst p = c) (registration_order cs em log)"
  using assms
proof (induction cs arbitrary: em log)
  case Nil
  then show ?case by simp
next
  case (Cons x cs)
  show ?case
  proof (cases x)
    case (AddListener t cb)
    let ?em = "perform (AddListener t cb) em"
    let ?log = "if cb = None then log else log @ [(t, \<lparr>id' = to_int (lastListenerID em), callback = cb\<rparr>)]"
    have m: "multimap (listeners ?em)" using Cons.prems(1) by (rule multimap_perform)
    have "\<forall>c. filter (\<lambda>p. fst p = c) (listeners ?em) = filter (\<lambda>p. fst p = c) ?log"
      using Cons.prems by (simp add: listeners_addListener filter_key_emplace)
    from Cons.IH [OF m this] show ?thesis using AddListener by simp
  next
    case (RemoveListener i)
    let ?em = "removeListener i em"
    let ?log = "filter (\<lambda>p. to_unsigned (id' (snd p)) \<noteq> i) log"
    have m: "multimap (listeners ?em)" using Cons.prems(1) multimap_perform [of em "RemoveListener i"] by simp
    have "\<forall>c. filter (\<lambda>p. fst p = c) (listeners ?em) = filter (\<lambda>p. fst p = c) ?log"
    proof
      fix c
      have "filter (\<lambda>p. fst p = c) (listeners ?em)
            = filter (\<lambda>p. to_unsigned (id' (snd p)) \<noteq> i) (filter (\<lambda>p. fst p = c) (listeners em))"
        by (simp add: listeners_removeListener conj_commute)
      also have "\<dots> = filter (\<lambda>p. to_unsigned (id' (snd p)) \<noteq> i) (filter (\<lambda>p. fst p = c) log)"
        using Cons.prems(2) by simp
      also have "\<dots> = filter (\<lambda>p. fst p = c) ?log" by (simp add: conj_commute)
      finally show "filter (\<lambda>p. fst p = c) (listeners ?em) = filter (\<lambda>p. fst p = c) ?log" .
    qed
    from Cons.IH [OF m this] show ?thesis using RemoveListener by simp
  qed
qed

subsection \<open>The history that wraps the counter\<close>

lemma perform_all_append: "perform_all (xs @ ys) em = perform_all ys (perform_all xs em)"
  by (induction xs arbitrary: em) simp_all

lemma successful_adds_append: "successful_adds (xs @ ys) = successful_adds xs + successful_adds ys"
  by (induction xs rule: successful_adds.induct) simp_all

lemma add_then_remove_Suc:
  "a \<le> b \<Longrightarrow> add_then_remove a (Suc b) =
     add_then_remove a b @ [AddListener 0 (Some 1), RemoveListener (of_nat b)]"
  by (simp add: add_then_remove_def)

lemma successful_adds_add_then_remove: "a \<le> b \<Longrightarrow> successful_adds (add_then_remove a b) = b - a"
proof (induction b rule: dec_induct)
  case base
  then show ?case by (simp add: add_then_remove_def)
next
  case (step n)
  then show ?case by (simp add: add_then_remove_Suc successful_adds_append)
qed

lemma of_nat_32_nonzero: "0 < b \<Longrightarrow> b < 2 ^ 32 \<Longrightarrow> (of_nat b :: 32 word) \<noteq> 0"
  using of_nat_32_inj [of b 0] by auto

lemma add_then_remove_listeners:
  assumes "0 < a" and "a \<le> b" and "b \<le> 2 ^ 32"
    and "listeners em = [(0, \<lparr>id' = 0, callback = Some 0\<rparr>)]"
    and "lastListenerID em = of_nat a"
  shows "listeners (perform_all (add_then_remove a b) em) = [(0, \<lparr>id' = 0, callback = Some 0\<rparr>)]"
  using assms(2,3)
proof (induction b rule: dec_induct)
  case base
  then show ?case using assms(4) by (simp add: add_then_remove_def)
next
  case (step n)
  let ?em = "perform_all (add_then_remove a n) em"
  have l: "listeners ?em = [(0, \<lparr>id' = 0, callback = Some 0\<rparr>)]" using step by simp
  have "lastListenerID ?em = of_nat a + of_nat (n - a)"
    using step(1) assms(5) by (simp add: lastListenerID_perform_all successful_adds_add_then_remove)
  then have c: "lastListenerID ?em = of_nat n" using step(1) by (metis le_add_diff_inverse of_nat_add)
  have nz: "(of_nat n :: 32 word) \<noteq> 0" using assms(1) step by (intro of_nat_32_nonzero) auto
  have "listeners (removeListener (of_nat n) (perform (AddListener 0 (Some 1)) ?em))
          = [(0, \<lparr>id' = 0, callback = Some 0\<rparr>)]"
    using l c nz
    by (simp add: listeners_removeListener listeners_addListener to_unsigned_to_int)
       (simp add: to_unsigned_def)
  then show ?case using step(1) by (simp add: add_then_remove_Suc perform_all_append)
qed

lemma wrapping_history_state:
  "perform_all wrapping_history EventEmitter_new
     = \<lparr>listeners = [(0, \<lparr>id' = 0, callback = Some 0\<rparr>)], lastListenerID = 0\<rparr>"
proof -
  let ?em = "perform (AddListener 0 (Some 0)) (EventEmitter_new :: (nat, nat) EventEmitter)"
  have l: "listeners ?em = [(0, \<lparr>id' = 0, callback = Some 0\<rparr>)]"
    by (simp add: listeners_addListener EventEmitter_new_def to_int_def)
  have c: "lastListenerID ?em = of_nat 1"
    by (simp add: lastListenerID_addListener)
  have "listeners (perform_all (add_then_remove 1 (2 ^ 32)) ?em) = [(0, \<lparr>id' = 0, callback = Some 0\<rparr>)]"
    using l c by (intro add_then_remove_listeners) auto
  moreover have "lastListenerID (perform_all (add_then_remove 1 (2 ^ 32)) ?em) = 0"
    by (simp add: lastListenerID_perform_all successful_adds_add_then_remove lastListenerID_addListener)
  ultimately show ?thesis by (simp add: wrapping_history_def)
qed

lemma successful_adds_wrapping_history: "successful_adds wrapping_history = 2 ^ 32"
  by (simp add: wrapping_history_def successful_adds_add_then_remove)

subsection \<open>The example emitter\<close>

lemma example_emitter_state:
  "example_emitter = \<lparr>listeners = [(0, \<lparr>id' = 0, callback = Some 10\<rparr>),
                                     (0, \<lparr>id' = 2, callback = Some 12\<rparr>),
                                     (1, \<lparr>id' = 1, callback = Some 11\<rparr>)],
                        lastListenerID = 3\<rparr>"
  by (simp add: example_emitter_def example_history_def addListener_def EventEmitter_new_def
      to_int_def Let_def)

subsection \<open>emit\<close>

lemma emit_loop_preserves:
  assumes "\<forall>f s. P (fst s) \<longrightarrow> P (fst (snd (invoke f c e s)))"
  shows "P (fst s) \<Longrightarrow> P (fst (snd (snd (emit_loop invoke c e ls s))))"
proof (induction ls arbitrary: s)
  case Nil
  then show ?case by simp
next
  case (Cons l ls)
  show ?case
  proof (cases "callback (snd l)")
    case None
    then show ?thesis using Cons.prems by simp
  next
    case (Some f)
    obtain x s' where i: "invoke f c e s = (x, s')" by (cases "invoke f c e s")
    have "P (fst (snd (invoke f c e s)))" using assms Cons.prems by blast
    then have p: "P (fst s')" using i by simp
    show ?thesis
    proof (cases x)
      case None
      then show ?thesis using Some i Cons.IH [OF p]
        by (cases "emit_loop invoke c e ls s'") simp
    next
      case (Some y)
      then show ?thesis using \<open>callback (snd l) = Some f\<close> i p by simp
    qed
  qed
qed

lemma emit_preserves:
  assumes "\<forall>f s. P (fst s) \<longrightarrow> P (fst (snd (invoke f c e s)))" and "P (fst s)"
  shows "P (fst (snd (snd (emit invoke c e s))))"
  unfolding emit_def Let_def using assms by (rule emit_loop_preserves)

subsection \<open>The invariant under single calls\<close>

lemma word32_less_succ: "(x :: 32 word) \<noteq> - 1 \<Longrightarrow> x < x + 1"
  by (metis inc_less_eq_triv_imp linorder_less_linear word_le_less_eq)

lemma ids_below_counter_addListener:
  assumes "ids_below_counter em" and "lastListenerID em \<noteq> - 1"
  shows "ids_below_counter (snd (addListener t cb em))"
proof (cases cb)
  case None
  then show ?thesis using assms(1) by (simp add: addListener_def)
next
  case (Some f)
  have lt: "lastListenerID em < lastListenerID em + 1" using assms(2) by (rule word32_less_succ)
  have "\<forall>i\<in>set (stored_ids (snd (addListener t cb em))). i < lastListenerID em + 1"
    using assms(1) lt Some stored_ids_addListener [of t cb em]
    by (auto simp: ids_below_counter_def list_all_iff)
  then show ?thesis using Some by (simp add: ids_below_counter_def list_all_iff lastListenerID_addListener)
qed

lemma ids_below_counter_removeListener:
  "ids_below_counter em \<Longrightarrow> ids_below_counter (removeListener i em)"
  by (simp add: ids_below_counter_def list_all_iff stored_ids_removeListener lastListenerID_removeListener)

subsection \<open>The lock\<close>

lemma lock_guards_loop:
  "lock_guards_accesses True (removeListener_loop_accesses i xs @ [Release])"
  by (induction xs) auto

lemma lock_guards_invokes:
  "lock_guards_accesses held (map (\<lambda>listener. Invoke) xs)"
  by (induction xs) auto

lemma addListener_steps_alone:
  "interleave [False, False, False, False, False]
     (addListener_call t (Some f), t2, \<lparr>emitter = em, mutex_locked = False\<rparr>)
   = (\<lparr>at = Returned, eventType_arg = t, callback_arg = Some f, loaded = lastListenerID em,
       listenerID = to_int (lastListenerID em)\<rparr>,
      t2, \<lparr>emitter = snd (addListener t (Some f) em), mutex_locked = False\<rparr>)"
  by (simp add: addListener_call_def addListener_def Let_def)

subsection \<open>The calls that emit makes\<close>

lemma emit_loop_recorded:
  "emit_loop (recorded invoke) c e ls (em, (w, log)) = (calls, res, (em', (w', log'))) \<Longrightarrow>
     \<exists>apps. log' = log @ apps
       \<and> emit_loop invoke c e ls (em, w) = (calls, res, (em', w'))
       \<and> calls = map (\<lambda>l. (snd l, c, e)) (take (length apps) ls)
       \<and> map (\<lambda>a. (Some (target a), eventType_passed a, event_passed a)) apps
           = map (\<lambda>l. (callback (snd l), c, e)) (take (length apps) ls)
       \<and> list_all (\<lambda>a. outcome a = None) (butlast apps)
       \<and> (res = None \<longleftrightarrow> length apps = length ls \<and> list_all (\<lambda>a. outcome a = None) apps)
       \<and> (apps \<noteq> [] \<and> outcome (last apps) \<noteq> None \<longrightarrow> res = outcome (last apps))
       \<and> (length apps < length ls \<and> list_all (\<lambda>a. outcome a = None) apps \<longrightarrow>
            callback (snd (ls ! length apps)) = None \<and> res = Some BadFunctionCall)"
proof (induction ls arbitrary: em w log calls res em' w' log')
  case Nil
  then show ?case by auto
next
  case (Cons l ls)
  show ?case
  proof (cases "callback (snd l)")
    case None
    then show ?thesis using Cons.prems by (intro exI [of _ "[]"]) auto
  next
    case (Some f)
    obtain r em1 w1 where i: "invoke f c e (em, w) = (r, (em1, w1))"
      by (metis prod.exhaust)
    let ?a = "\<lparr>target = f, eventType_passed = c, event_passed = e, outcome = r\<rparr>"
    have ri: "recorded invoke f c e (em, (w, log)) = (r, (em1, (w1, log @ [?a])))"
      using i by (simp add: recorded_def)
    show ?thesis
    proof (cases r)
      case (Some x)
      then show ?thesis using Cons.prems \<open>callback (snd l) = Some f\<close> i ri
        by (intro exI [of _ "[?a]"]) auto
    next
      case None
      obtain calls1 where rest: "emit_loop (recorded invoke) c e ls (em1, (w1, log @ [?a]))
          = (calls1, res, (em', (w', log')))" and calls: "calls = (snd l, c, e) # calls1"
        using Cons.prems \<open>callback (snd l) = Some f\<close> ri None
        by (auto split: prod.splits)
      from Cons.IH [OF rest] obtain apps where
        a: "log' = (log @ [?a]) @ apps"
          "emit_loop invoke c e ls (em1, w1) = (calls1, res, (em', w'))"
          "calls1 = map (\<lambda>l. (snd l, c, e)) (take (length apps) ls)"
          "map (\<lambda>a. (Some (target a), eventType_passed a, event_passed a)) apps
             = map (\<lambda>l. (callback (snd l), c, e)) (take (length apps) ls)"
          "list_all (\<lambda>a. outcome a = None) (butlast apps)"
          "res = None \<longleftrightarrow> length apps = length ls \<and> list_all (\<lambda>a. outcome a = None) apps"
          "apps \<noteq> [] \<and> outcome (last apps) \<noteq> None \<longrightarrow> res = outcome (last apps)"
          "length apps < length ls \<and> list_all (\<lambda>a. outcome a = None) apps \<longrightarrow>
            callback (snd (ls ! length apps)) = None \<and> res = Some BadFunctionCall"
        by blast
      show ?thesis
        using a calls None \<open>callback (snd l) = Some f\<close> i
        by (intro exI [of _ "?a # apps"]) (auto split: if_splits)
    qed
  qed
qed

lemma emit_dispatch:
  assumes "map snd (equal_range c (listeners (fst s))) = reg"
  shows "map fst (fst (emit invoke c e s)) = take (length (applications invoke c e s)) reg
     \<and> map (\<lambda>a. (Some (target a), eventType_passed a, event_passed a)) (applications invoke c e s)
         = map (\<lambda>l. (callback l, c, e)) (take (length (applications invoke c e s)) reg)
     \<and> list_all (\<lambda>a. outcome a = None) (butlast (applications invoke c e s))
     \<and> (fst (snd (emit invoke c e s)) = None \<longleftrightarrow>
          length (applications invoke c e s) = length reg
          \<and> list_all (\<lambda>a. outcome a = None) (applications invoke c e s))
     \<and> (applications invoke c e s \<noteq> [] \<and> outcome (last (applications invoke c e s)) \<noteq> None \<longrightarrow>
          fst (snd (emit invoke c e s)) = outcome (last (applications invoke c e s)))
     \<and> (length (applications invoke c e s) < length reg
          \<and> list_all (\<lambda>a. outcome a = None) (applications invoke c e s) \<longrightarrow>
          callback (reg ! length (applications invoke c e s)) = None
          \<and> fst (snd (emit invoke c e s)) = Some BadFunctionCall)"
proof -
  let ?ls = "equal_range c (listeners (fst s))"
  obtain calls res em' w' log' where
    r: "emit_loop (recorded invoke) c e ?ls (fst s, (snd s, [])) = (calls, res, (em', (w', log')))"
    by (metis prod.exhaust)
  from emit_loop_recorded [OF r] obtain apps where
    a: "log' = [] @ apps"
      "emit_loop invoke c e ?ls (fst s, snd s) = (calls, res, (em', w'))"
      "calls = map (\<lambda>l. (snd l, c, e)) (take (length apps) ?ls)"
      "map (\<lambda>a. (Some (target a), eventType_passed a, event_passed a)) apps
         = map (\<lambda>l. (callback (snd l), c, e)) (take (length apps) ?ls)"
      "list_all (\<lambda>a. outcome a = None) (butlast apps)"
      "res = None \<longleftrightarrow> length apps = length ?ls \<and> list_all (\<lambda>a. outcome a = None) apps"
      "apps \<noteq> [] \<and> outcome (last apps) \<noteq> None \<longrightarrow> res = outcome (last apps)"
      "length apps < length ?ls \<and> list_all (\<lambda>a. outcome a = None) apps \<longrightarrow>
         callback (snd (?ls ! length apps)) = None \<and> res = Some BadFunctionCall"
    by blast
  have apps: "applications invoke c e s = apps"
    using r a(1) by (simp add: applications_def emit_def)
  have em: "emit invoke c e s = (calls, res, (em', w'))"
    using a(2) by (simp add: emit_def)
  have len: "length reg = length ?ls" using assms by auto
  have tk: "map (\<lambda>l. (callback (snd l), c, e)) (take (length apps) ?ls)
      = map (\<lambda>l. (callback l, c, e)) (take (length apps) reg)"
    using assms by (auto simp: take_map)
  have c1: "map fst calls = take (length apps) reg"
    using a(3) assms by (auto simp: take_map comp_def)
  have nth: "length apps < length ?ls \<Longrightarrow> reg ! length apps = snd (?ls ! length apps)"
    using assms by auto
  show ?thesis
    unfolding apps em using a(4-8) c1 tk len nth by simp
qed

lemma callbacks_valid_perform_all:
  assumes "\<forall>p\<in>set (listeners em). callback (snd p) \<noteq> None"
  shows "\<forall>p\<in>set (listeners (perform_all cs em)). callback (snd p) \<noteq> None"
  using assms
proof (induction cs arbitrary: em)
  case Nil
  then show ?case by simp
next
  case (Cons x cs)
  have "\<forall>p\<in>set (listeners (perform x em)). callback (snd p) \<noteq> None"
    using Cons.prems
    by (cases x) (auto simp: listeners_addListener listeners_removeListener set_emplace)
  then show ?case using Cons.IH by simp
qed

lemma only_last_differs:
  "list_all P (butlast xs) \<Longrightarrow> \<not> list_all P xs \<Longrightarrow> xs \<noteq> [] \<and> \<not> P (last xs)"
  by (induction xs) (auto split: if_splits)


section \<open>The claims\<close>

subsection \<open>C1: what emit invokes\<close>

text \<open>
  C1, as amended. For every state of the emitter (a multimap), event type \<open>c\<close> and event
  \<open>e\<close>, the calls that \<open>emit c e\<close> makes are, in stored order, calls of the callbacks of an
  initial part of the entries stored for \<open>c\<close> at the time of the call, each with the
  arguments \<open>c\<close> and \<open>e\<close>: so no callback is called twice for one entry and none is called
  for an entry stored for another event type. Every call but the last returns normally: a
  callback that throws is the last one called, and emit leaves by its exception. emit returns
  normally exactly when it has called the callbacks of all these entries, each once, and
  all have returned normally. It stops short of that without a throwing callback only at
  an entry whose callback is empty, by \<^verbatim>\<open>std::bad_function_call\<close>. The calls that emit
  reports are the calls made.
\<close>

theorem emit_invokes_registered:
  assumes "multimap (listeners (fst s))"
  shows "let reg = map snd (filter (\<lambda>p. fst p = c) (listeners (fst s)));
             apps = applications invoke c e s;
             res = fst (snd (emit invoke c e s))
         in map (\<lambda>a. (Some (target a), eventType_passed a, event_passed a)) apps
              = map (\<lambda>l. (callback l, c, e)) (take (length apps) reg)
          \<and> list_all (\<lambda>a. outcome a = None) (butlast apps)
          \<and> (res = None \<longleftrightarrow> length apps = length reg \<and> list_all (\<lambda>a. outcome a = None) apps)
          \<and> (apps \<noteq> [] \<and> outcome (last apps) \<noteq> None \<longrightarrow> res = outcome (last apps))
          \<and> (length apps < length reg \<and> list_all (\<lambda>a. outcome a = None) apps \<longrightarrow>
                callback (reg ! length apps) = None \<and> res = Some BadFunctionCall)
          \<and> map fst (fst (emit invoke c e s)) = take (length apps) reg
          \<and> prefix (map fst (fst (emit invoke c e s))) reg
          \<and> (res = None \<longrightarrow> map fst (fst (emit invoke c e s)) = reg)"
proof -
  let ?reg = "map snd (filter (\<lambda>p. fst p = c) (listeners (fst s)))"
  have "map snd (equal_range c (listeners (fst s))) = ?reg"
    using assms by (simp add: equal_range_filter)
  note d = emit_dispatch [OF this, of invoke e]
  have p: "prefix (map fst (fst (emit invoke c e s))) ?reg"
    using d by (simp add: take_is_prefix)
  have "fst (snd (emit invoke c e s)) = None \<longrightarrow> map fst (fst (emit invoke c e s)) = ?reg"
    using d by simp
  then show ?thesis unfolding Let_def using d p by blast
qed

text \<open>Three instances: no callback throws; the callback of the first of two listeners
  throws; the only entry has an empty callback.\<close>

theorem emit_invokes_registered_witness:
  "multimap (listeners example_emitter)
   \<and> applications returns_normally 0 () (example_emitter, ())
       = [\<lparr>target = 10, eventType_passed = 0, event_passed = (), outcome = None\<rparr>,
          \<lparr>target = 12, eventType_passed = 0, event_passed = (), outcome = None\<rparr>]
   \<and> fst (snd (emit returns_normally 0 () (example_emitter, ()))) = None
   \<and> map fst (fst (emit returns_normally 0 () (example_emitter, ())))
       = [\<lparr>id' = 0, callback = Some 10\<rparr>, \<lparr>id' = 2, callback = Some 12\<rparr>]
   \<and> applications target_0_raises (0::nat) ()
         (\<lparr>listeners = [(0, \<lparr>id' = 0, callback = Some 0\<rparr>), (0, \<lparr>id' = 1, callback = Some 1\<rparr>)],
           lastListenerID = 2\<rparr>, ())
       = [\<lparr>target = 0, eventType_passed = 0, event_passed = (), outcome = Some CallbackRaised\<rparr>]
   \<and> fst (snd (emit target_0_raises (0::nat) ()
         (\<lparr>listeners = [(0, \<lparr>id' = 0, callback = Some 0\<rparr>), (0, \<lparr>id' = 1, callback = Some 1\<rparr>)],
           lastListenerID = 2\<rparr>, ()))) = Some CallbackRaised
   \<and> applications returns_normally (0::nat) ()
         (\<lparr>listeners = [(0, \<lparr>id' = 0, callback = (None :: nat option)\<rparr>)], lastListenerID = 1\<rparr>, ())
       = []
   \<and> fst (snd (emit returns_normally (0::nat) ()
         (\<lparr>listeners = [(0, \<lparr>id' = 0, callback = (None :: nat option)\<rparr>)], lastListenerID = 1\<rparr>, ())))
       = Some BadFunctionCall"
proof -
  let ?s2 = "(\<lparr>listeners = [(0::nat, \<lparr>id' = 0, callback = Some (0::nat)\<rparr>),
      (0, \<lparr>id' = 1, callback = Some 1\<rparr>)], lastListenerID = 2\<rparr>, ())"
  let ?s3 = "(\<lparr>listeners = [(0::nat, \<lparr>id' = 0, callback = (None :: nat option)\<rparr>)],
      lastListenerID = 1\<rparr>, ())"
  have m1: "multimap (listeners (fst (example_emitter, ())))"
    by (simp add: example_emitter_state multimap_def)
  have m2: "multimap (listeners (fst ?s2))" by (simp add: multimap_def)
  have m3: "multimap (listeners (fst ?s3))" by (simp add: multimap_def)
  have a1: "applications returns_normally 0 () (example_emitter, ())
       = [\<lparr>target = 10, eventType_passed = 0, event_passed = (), outcome = None\<rparr>,
          \<lparr>target = 12, eventType_passed = 0, event_passed = (), outcome = None\<rparr>]"
    by (simp add: applications_def emit_def equal_range_def recorded_def returns_normally_def
        example_emitter_state)
  have a2: "applications target_0_raises (0::nat) () ?s2
       = [\<lparr>target = 0, eventType_passed = 0, event_passed = (), outcome = Some CallbackRaised\<rparr>]"
    by (simp add: applications_def emit_def equal_range_def recorded_def target_0_raises_def)
  have a3: "applications returns_normally (0::nat) () ?s3 = []"
    by (simp add: applications_def emit_def equal_range_def recorded_def returns_normally_def)
  have l1: "listeners example_emitter = [(0, \<lparr>id' = 0, callback = Some 10\<rparr>),
      (0, \<lparr>id' = 2, callback = Some 12\<rparr>), (1, \<lparr>id' = 1, callback = Some 11\<rparr>)]"
    by (simp add: example_emitter_state)
  note t1 = emit_invokes_registered [OF m1, of 0 returns_normally "()"]
  note t2 = emit_invokes_registered [OF m2, of 0 target_0_raises "()"]
  note t3 = emit_invokes_registered [OF m3, of 0 returns_normally "()"]
  have r1: "fst (snd (emit returns_normally 0 () (example_emitter, ()))) = None
      \<and> map fst (fst (emit returns_normally 0 () (example_emitter, ())))
       = [\<lparr>id' = 0, callback = Some 10\<rparr>, \<lparr>id' = 2, callback = Some 12\<rparr>]"
    using t1 unfolding Let_def a1 by (simp add: l1)
  have r2: "fst (snd (emit target_0_raises (0::nat) () ?s2)) = Some CallbackRaised"
    using t2 unfolding Let_def a2 by simp
  have r3: "fst (snd (emit returns_normally (0::nat) () ?s3)) = Some BadFunctionCall"
    using t3 unfolding Let_def a3 by simp
  show ?thesis using m1 a1 a2 a3 r1 r2 r3 by simp
qed

text \<open>
  The claim without the proviso fails: of two listeners registered for event type \<open>0\<close>,
  the second is not called when the callback of the first throws (line 85 has no
  handler around it).
\<close>

theorem emit_raising_callback_counterexample:
  "map snd (filter (\<lambda>p. fst p = 0)
      (listeners (perform_all [AddListener (0::nat) (Some 0), AddListener 0 (Some 1)] EventEmitter_new)))
     = [\<lparr>id' = 0, callback = Some (0::nat)\<rparr>, \<lparr>id' = 1, callback = Some 1\<rparr>]
   \<and> emit target_0_raises 0 ()
        (perform_all [AddListener (0::nat) (Some 0), AddListener 0 (Some 1)] EventEmitter_new, ())
     = ([(\<lparr>id' = 0, callback = Some 0\<rparr>, 0, ())], Some CallbackRaised,
        (perform_all [AddListener (0::nat) (Some 0), AddListener 0 (Some 1)] EventEmitter_new, ()))
   \<and> applications target_0_raises 0 ()
        (perform_all [AddListener (0::nat) (Some 0), AddListener 0 (Some 1)] EventEmitter_new, ())
     = [\<lparr>target = 0, eventType_passed = 0, event_passed = (), outcome = Some CallbackRaised\<rparr>]"
  by (simp add: addListener_def EventEmitter_new_def emit_def equal_range_def
      target_0_raises_def to_int_def Let_def applications_def recorded_def)

subsection \<open>C2: the identifiers addListener returns\<close>

text \<open>
  C2, as amended. In every sequence of addListener and removeListener calls on a new
  emitter with at most \<open>2 ^ 32\<close> successful addListener calls, the identifiers returned are
  pairwise distinct, whatever is removed in between. With or without the bound, the
  identifiers returned are \<open>0, 1, 2, \<dots>\<close> modulo \<open>2 ^ 32\<close> in call order and the counter
  is the number of successful calls modulo \<open>2 ^ 32\<close>: a successful addListener returns the
  counter and adds one to it, so the counter grows strictly unless it is \<open>2 ^ 32 - 1\<close>;
  removeListener leaves it alone.
\<close>

theorem returned_ids_unique:
  "(successful_adds cs \<le> 2 ^ 32 \<longrightarrow> distinct (returned_ids cs EventEmitter_new))
   \<and> returned_ids cs EventEmitter_new = map of_nat [0..<successful_adds cs]
   \<and> lastListenerID (perform_all cs EventEmitter_new) = of_nat (successful_adds cs)
   \<and> fst (addListener t (Some f) em) = Inr (lastListenerID em)
   \<and> lastListenerID (snd (addListener t (Some f) em)) = lastListenerID em + 1
   \<and> (lastListenerID em \<noteq> - 1 \<longrightarrow>
        lastListenerID em < lastListenerID (snd (addListener t (Some f) em)))
   \<and> lastListenerID (removeListener i em) = lastListenerID em"
proof -
  have "returned_ids cs EventEmitter_new = map of_nat [0..<successful_adds cs]"
    by (simp add: returned_ids_eq)
  moreover have "lastListenerID (perform_all cs EventEmitter_new) = of_nat (successful_adds cs)"
    by (simp add: lastListenerID_perform_all)
  moreover have "successful_adds cs \<le> 2 ^ 32 \<longrightarrow> distinct (returned_ids cs EventEmitter_new)"
    using returned_ids_distinct [of cs EventEmitter_new] by blast
  moreover have "lastListenerID em \<noteq> - 1 \<longrightarrow>
      lastListenerID em < lastListenerID (snd (addListener t (Some f) em))"
    by (simp add: lastListenerID_addListener word32_less_succ)
  ultimately show ?thesis
    by (simp only: fst_addListener lastListenerID_addListener lastListenerID_removeListener
        simp_thms option.simps if_False)
qed

theorem returned_ids_unique_witness:
  "successful_adds (example_history @ [RemoveListener 0, AddListener 0 (Some 13)]) \<le> 2 ^ 32
   \<and> returned_ids (example_history @ [RemoveListener 0, AddListener 0 (Some 13)]) EventEmitter_new
       = [0, 1, 2, 3]
   \<and> distinct (returned_ids (example_history @ [RemoveListener 0, AddListener 0 (Some 13)])
        EventEmitter_new)
   \<and> lastListenerID example_emitter \<noteq> - 1
   \<and> lastListenerID example_emitter < lastListenerID (snd (addListener 0 (Some 13) example_emitter))"
proof -
  let ?cs = "example_history @ [RemoveListener 0, AddListener 0 (Some 13)]"
  have h: "successful_adds ?cs \<le> 2 ^ 32" by (simp add: example_history_def)
  have r: "returned_ids ?cs EventEmitter_new = [0, 1, 2, 3]"
    by (simp add: returned_ids_eq example_history_def upt_rec)
  have n: "lastListenerID example_emitter \<noteq> - 1" by (simp add: example_emitter_state)
  show ?thesis
    using h r n returned_ids_unique [of ?cs 0 13 example_emitter 0] by blast
qed

text \<open>
  Without the bound the claim fails: the call number \<open>2 ^ 32 + 1\<close> returns the identifier
  of the first call again.
\<close>

theorem returned_ids_repeat_counterexample:
  "\<not> distinct (returned_ids (wrapping_history @ [AddListener 0 (Some 1)]) EventEmitter_new)"
proof -
  let ?cs = "wrapping_history @ [AddListener 0 (Some 1)]"
  have n: "successful_adds ?cs = Suc (2 ^ 32)"
    by (simp add: successful_adds_append successful_adds_wrapping_history)
  have "\<not> inj_on (\<lambda>j. (of_nat j :: 32 word)) {0..<Suc (2 ^ 32)}"
  proof
    assume "inj_on (\<lambda>j. (of_nat j :: 32 word)) {0..<Suc (2 ^ 32)}"
    moreover have "(of_nat 0 :: 32 word) = of_nat (2 ^ 32)" by simp
    ultimately have "(0::nat) = 2 ^ 32" by (rule inj_onD) simp_all
    then show False by simp
  qed
  then have "\<not> distinct (map (\<lambda>j. lastListenerID (EventEmitter_new :: (nat, nat) EventEmitter) + of_nat j)
      [0..<Suc (2 ^ 32)])"
    by (simp add: distinct_map del: upt_Suc)
  then show ?thesis unfolding returned_ids_eq n .
qed

subsection \<open>C3: the lock\<close>

text \<open>
  C3. removeListener and emit touch the map only between taking and releasing the lock.
  addListener does not keep the discipline the claim states: it reads and writes
  \<^verbatim>\<open>lastListenerID\<close> on line 36, before the \<^verbatim>\<open>lock_guard\<close> of line 37 exists. With two
  threads in addListener that both read the counter before either writes it, both calls
  return identifier \<open>0\<close>, the counter ends at \<open>1\<close> and the map holds the id \<open>0\<close> twice.
  (A thread that runs its five steps alone does what the function addListener does.)
\<close>

theorem addListener_counter_outside_lock:
  "\<not> lock_guards_accesses False (addListener_accesses (Some f))
   \<and> lock_guards_accesses False (removeListener_accesses i em)
   \<and> lock_guards_accesses False (emit_accesses c em)
   \<and> (case interleave both_read_first
          (addListener_call (0::nat) (Some (10::nat)), addListener_call 0 (Some 11),
           \<lparr>emitter = EventEmitter_new, mutex_locked = False\<rparr>) of
         (t1, t2, sh) \<Rightarrow>
           (at t1, at t2, to_unsigned (listenerID t1), to_unsigned (listenerID t2),
            lastListenerID (emitter sh), stored_ids (emitter sh)))
       = (Returned, Returned, 0, 0, 1, [0, 0])"
proof -
  have "(case interleave both_read_first
          (addListener_call (0::nat) (Some (10::nat)), addListener_call 0 (Some 11),
           \<lparr>emitter = EventEmitter_new, mutex_locked = False\<rparr>) of
         (t1, t2, sh) \<Rightarrow>
           (at t1, at t2, to_unsigned (listenerID t1), to_unsigned (listenerID t2),
            lastListenerID (emitter sh), stored_ids (emitter sh)))
       = (Returned, Returned, 0, 0, 1, [0, 0])"
    by (simp add: both_read_first_def addListener_call_def EventEmitter_new_def to_int_def
        to_unsigned_def stored_ids_def)
  then show ?thesis
    by (simp add: addListener_accesses_def removeListener_accesses_def emit_accesses_def
        lock_guards_loop lock_guards_invokes)
qed

subsection \<open>C4: an empty callback is rejected and nothing changes\<close>

text \<open>
  C4. For every event type and the empty callback, addListener throws
  \<^verbatim>\<open>std::invalid_argument\<close> and leaves the emitter exactly as it was: the listener map
  (hence the number of its entries) and the id counter are those of the state before the
  call.
\<close>

theorem addListener_invalid_unchanged:
  "addListener eventType None em = (Inl InvalidArgument, em)
   \<and> length (listeners (snd (addListener eventType None em))) = length (listeners em)
   \<and> lastListenerID (snd (addListener eventType None em)) = lastListenerID em"
  by (simp add: addListener_def)

subsection \<open>C5: a removed listener is not invoked again\<close>

text \<open>
  C5. Let \<open>removeListener i\<close> have returned, and let any further addListener and
  removeListener calls \<open>cs\<close> follow. Every listener that a later \<open>emit\<close> calls, for any
  event type, is either an entry the emitter held before the removal under an id other
  than \<open>i\<close>, or an entry that an addListener call of \<open>cs\<close> inserted: the entry removed is
  called only if it is registered anew. In particular no listener with id \<open>i\<close> is called,
  unless an addListener call of \<open>cs\<close> returned \<open>i\<close>.
\<close>

theorem removed_listener_not_invoked:
  "(\<forall>call\<in>set (fst (emit invoke c e (perform_all cs (removeListener i em), w))).
       fst call \<in> snd ` ({p \<in> set (listeners em). to_unsigned (id' (snd p)) \<noteq> i}
                         \<union> set (inserted cs (removeListener i em))))
   \<and> (i \<notin> set (returned_ids cs (removeListener i em)) \<longrightarrow>
       (\<forall>call\<in>set (fst (emit invoke c e (perform_all cs (removeListener i em), w))).
          to_unsigned (id' (fst call)) \<noteq> i))"
proof -
  let ?em = "perform_all cs (removeListener i em)"
  have calls: "set (fst (emit invoke c e (?em, w))) \<subseteq> (\<lambda>l. (snd l, c, e)) ` set (listeners ?em)"
    using emit_calls_from_snapshot [of invoke c e "(?em, w)"] set_equal_range [of c "listeners ?em"]
    by auto
  have "set (listeners ?em) \<subseteq> set (listeners (removeListener i em)) \<union> set (inserted cs (removeListener i em))"
    by (rule set_listeners_perform_all)
  then have src: "set (listeners ?em) \<subseteq> {p \<in> set (listeners em). to_unsigned (id' (snd p)) \<noteq> i}
                         \<union> set (inserted cs (removeListener i em))"
    by (auto simp: listeners_removeListener)
  have a: "\<forall>call\<in>set (fst (emit invoke c e (?em, w))).
       fst call \<in> snd ` ({p \<in> set (listeners em). to_unsigned (id' (snd p)) \<noteq> i}
                         \<union> set (inserted cs (removeListener i em)))"
    using calls src by fastforce
  have b: "\<forall>call\<in>set (fst (emit invoke c e (?em, w))). to_unsigned (id' (fst call)) \<noteq> i"
    if "i \<notin> set (returned_ids cs (removeListener i em))"
  proof -
    have "i \<notin> set (stored_ids (removeListener i em))" by (simp add: stored_ids_removeListener)
    then have "i \<notin> set (stored_ids ?em)"
      using that stored_ids_subset_returned [of cs "removeListener i em"] by auto
    then have "\<forall>p\<in>set (listeners ?em). to_unsigned (id' (snd p)) \<noteq> i"
      by (auto simp: stored_ids_def)
    then show ?thesis using calls by fastforce
  qed
  show ?thesis using a b by blast
qed

theorem removed_listener_not_invoked_witness:
  "2 \<notin> set (returned_ids [AddListener 0 (Some 13)] (removeListener 2 example_emitter))
   \<and> list_all (\<lambda>call. to_unsigned (id' (fst call)) \<noteq> 2)
        (fst (emit returns_normally 0 ()
           (perform_all [AddListener 0 (Some 13)] (removeListener 2 example_emitter), ())))"
proof -
  have h: "2 \<notin> set (returned_ids [AddListener 0 (Some 13)] (removeListener 2 example_emitter))"
    by (simp add: example_emitter_state removeListener_def addListener_def to_int_def
        to_unsigned_def Let_def)
  show ?thesis
    using h removed_listener_not_invoked
      [of returns_normally 0 "()" "[AddListener 0 (Some 13)]" 2 example_emitter "()"]
    by (simp add: list_all_iff)
qed

subsection \<open>C6: removeListener is idempotent, and a no-op on unknown identifiers\<close>

text \<open>
  C6. For every identifier, calling removeListener twice is the same as calling it once;
  and after any sequence of calls on a new emitter, removeListener with an identifier that
  no addListener call of the sequence returned leaves the emitter unchanged. removeListener
  has no exceptional exit: it is a total function from states to states.
\<close>

theorem removeListener_idempotent:
  "removeListener i (removeListener i em) = removeListener i em
   \<and> (i \<notin> set (returned_ids cs EventEmitter_new) \<longrightarrow>
        removeListener i (perform_all cs EventEmitter_new) = perform_all cs EventEmitter_new)"
proof -
  have "removeListener i (perform_all cs EventEmitter_new) = perform_all cs EventEmitter_new"
    if "i \<notin> set (returned_ids cs EventEmitter_new)"
  proof (rule removeListener_absent)
    show "i \<notin> set (stored_ids (perform_all cs EventEmitter_new))"
      using that stored_ids_subset_returned [of cs EventEmitter_new] by auto
  qed
  then show ?thesis by (simp add: removeListener_idem)
qed

theorem removeListener_idempotent_witness:
  "7 \<notin> set (returned_ids example_history EventEmitter_new)
   \<and> removeListener 7 example_emitter = example_emitter
   \<and> removeListener 2 (removeListener 2 example_emitter) = removeListener 2 example_emitter"
proof -
  have h: "7 \<notin> set (returned_ids example_history EventEmitter_new)"
    by (simp add: returned_ids_eq example_history_def)
  show ?thesis
    using h removeListener_idempotent [of 7 example_emitter example_history]
      removeListener_idempotent [of 2 example_emitter example_history]
    by (simp add: example_emitter_def)
qed

subsection \<open>C7: what removeListener removes\<close>

text \<open>
  C7, as amended. removeListener erases exactly the entries whose id matches, and leaves
  every other entry, their order and the counter unchanged. In every state reached from a
  new emitter by a sequence of calls with at most \<open>2 ^ 32\<close> successful addListener calls, at
  most one entry is erased.
\<close>

theorem removeListener_removes_matching:
  "listeners (removeListener i em) = filter (\<lambda>p. to_unsigned (id' (snd p)) \<noteq> i) (listeners em)
   \<and> lastListenerID (removeListener i em) = lastListenerID em
   \<and> (successful_adds cs \<le> 2 ^ 32 \<longrightarrow>
        length (listeners (perform_all cs EventEmitter_new))
          \<le> Suc (length (listeners (removeListener i (perform_all cs EventEmitter_new)))))"
  using new_stored_ids(2) [of cs] removeListener_at_most_one [of "perform_all cs EventEmitter_new" i]
  by (simp add: listeners_removeListener lastListenerID_removeListener)

theorem removeListener_removes_matching_witness:
  "successful_adds example_history \<le> 2 ^ 32
   \<and> listeners (removeListener 2 example_emitter)
       = [(0, \<lparr>id' = 0, callback = Some 10\<rparr>), (1, \<lparr>id' = 1, callback = Some 11\<rparr>)]
   \<and> length (listeners example_emitter) \<le> Suc (length (listeners (removeListener 2 example_emitter)))"
proof -
  have h: "successful_adds example_history \<le> 2 ^ 32" by (simp add: example_history_def)
  have l: "listeners (removeListener 2 example_emitter)
       = [(0, \<lparr>id' = 0, callback = Some 10\<rparr>), (1, \<lparr>id' = 1, callback = Some 11\<rparr>)]"
    by (simp add: example_emitter_state removeListener_def to_unsigned_def)
  have "length (listeners (perform_all example_history EventEmitter_new))
          \<le> Suc (length (listeners (removeListener 2 (perform_all example_history EventEmitter_new))))"
    using h removeListener_removes_matching [of 2 example_emitter example_history] by blast
  then show ?thesis using h l by (simp only: example_emitter_def simp_thms)
qed

text \<open>
  Without the bound the claim fails. After the counter has wrapped, the next registration
  gets the id \<open>0\<close> of a listener that is still registered, and \<open>removeListener 0\<close> erases
  both entries.
\<close>

theorem removeListener_removes_two_counterexample:
  "listeners (perform_all (wrapping_history @ [AddListener 0 (Some 1)]) EventEmitter_new)
     = [(0, \<lparr>id' = 0, callback = Some 0\<rparr>), (0, \<lparr>id' = 0, callback = Some 1\<rparr>)]
   \<and> listeners (removeListener 0
        (perform_all (wrapping_history @ [AddListener 0 (Some 1)]) EventEmitter_new)) = []"
  by (simp add: perform_all_append wrapping_history_state listeners_addListener
      listeners_removeListener to_int_def to_unsigned_def)

subsection \<open>C8: emit changes nothing itself\<close>




subsection \<open>C9: dispatch in registration order\<close>

text \<open>
  C9, as amended. After any sequence of calls on a new emitter, the calls that \<open>emit c e\<close>
  makes are, in this order, calls of the callbacks of the listeners registered for \<open>c\<close> and
  not removed since, oldest first, each with the arguments \<open>c\<close> and \<open>e\<close> and each after the
  one before it has returned normally. All of them are called unless a callback throws: emit
  stops before the end only when the callback called last has thrown, and the listeners
  registered after that one are not called.
\<close>

theorem emit_in_registration_order:
  "let reg = map snd (filter (\<lambda>p. fst p = c) (registration_order cs EventEmitter_new []));
       apps = applications invoke c e (perform_all cs EventEmitter_new, w);
       res = fst (snd (emit invoke c e (perform_all cs EventEmitter_new, w)))
   in map (\<lambda>a. (Some (target a), eventType_passed a, event_passed a)) apps
        = map (\<lambda>l. (callback l, c, e)) (take (length apps) reg)
    \<and> list_all (\<lambda>a. outcome a = None) (butlast apps)
    \<and> (length apps < length reg \<longrightarrow> apps \<noteq> [] \<and> outcome (last apps) \<noteq> None)
    \<and> (res = None \<longleftrightarrow> length apps = length reg \<and> list_all (\<lambda>a. outcome a = None) apps)
    \<and> prefix (map fst (fst (emit invoke c e (perform_all cs EventEmitter_new, w)))) reg
    \<and> (res = None \<longrightarrow>
          map fst (fst (emit invoke c e (perform_all cs EventEmitter_new, w))) = reg)"
proof -
  let ?em = "perform_all cs EventEmitter_new"
  let ?s = "(?em, w)"
  let ?reg = "map snd (filter (\<lambda>p. fst p = c) (registration_order cs EventEmitter_new []))"
  let ?apps = "applications invoke c e ?s"
  have "multimap (listeners ?em)"
    by (simp add: multimap_perform_all multimap_new)
  then have "equal_range c (listeners ?em) = filter (\<lambda>p. fst p = c) (listeners ?em)"
    by (rule equal_range_filter)
  also have "\<dots> = filter (\<lambda>p. fst p = c) (registration_order cs EventEmitter_new [])"
    by (rule registration_order_correct) (simp_all add: multimap_def EventEmitter_new_def)
  finally have snapshot: "map snd (equal_range c (listeners (fst ?s))) = ?reg"
    by simp
  note d = emit_dispatch [OF snapshot, of invoke e]
  have valid: "\<forall>l\<in>set ?reg. callback l \<noteq> None"
  proof -
    have "\<forall>p\<in>set (listeners ?em). callback (snd p) \<noteq> None"
      by (rule callbacks_valid_perform_all) (simp add: EventEmitter_new_def)
    moreover have "set (equal_range c (listeners ?em)) \<subseteq> set (listeners ?em)"
      by (rule set_equal_range)
    ultimately have "\<forall>l\<in>set (map snd (equal_range c (listeners (fst ?s)))). callback l \<noteq> None"
      by auto
    then show ?thesis unfolding snapshot .
  qed
  have early: "?apps \<noteq> [] \<and> outcome (last ?apps) \<noteq> None" if lt: "length ?apps < length ?reg"
  proof -
    have "?reg ! length ?apps \<in> set ?reg" using lt by (rule nth_mem)
    then have "callback (?reg ! length ?apps) \<noteq> None" using valid by blast
    moreover have "length ?apps < length ?reg \<and> list_all (\<lambda>a. outcome a = None) ?apps \<longrightarrow>
        callback (?reg ! length ?apps) = None"
      using d by simp
    ultimately have n: "\<not> list_all (\<lambda>a. outcome a = None) ?apps" using lt by auto
    moreover have "list_all (\<lambda>a. outcome a = None) (butlast ?apps)" using d by simp
    ultimately show ?thesis by (intro only_last_differs) auto
  qed
  have p: "prefix (map fst (fst (emit invoke c e ?s))) ?reg"
    using d by (simp add: take_is_prefix)
  have "fst (snd (emit invoke c e ?s)) = None \<longrightarrow> map fst (fst (emit invoke c e ?s)) = ?reg"
    using d by simp
  then show ?thesis unfolding Let_def using d p early by blast
qed

text \<open>Two instances on the same history: no callback throws, and the callback registered
  third for event type \<open>0\<close> throws.\<close>

theorem emit_in_registration_order_witness:
  "map snd (filter (\<lambda>p. fst p = 0)
      (registration_order (example_history @ [AddListener 0 (Some 0), AddListener 0 (Some 14)])
         EventEmitter_new []))
     = [\<lparr>id' = 0, callback = Some 10\<rparr>, \<lparr>id' = 2, callback = Some 12\<rparr>,
        \<lparr>id' = 3, callback = Some 0\<rparr>, \<lparr>id' = 4, callback = Some 14\<rparr>]
   \<and> applications returns_normally 0 ()
        (perform_all (example_history @ [AddListener 0 (Some 0), AddListener 0 (Some 14)])
           EventEmitter_new, ())
     = [\<lparr>target = 10, eventType_passed = 0, event_passed = (), outcome = None\<rparr>,
        \<lparr>target = 12, eventType_passed = 0, event_passed = (), outcome = None\<rparr>,
        \<lparr>target = 0, eventType_passed = 0, event_passed = (), outcome = None\<rparr>,
        \<lparr>target = 14, eventType_passed = 0, event_passed = (), outcome = None\<rparr>]
   \<and> fst (snd (emit returns_normally 0 ()
        (perform_all (example_history @ [AddListener 0 (Some 0), AddListener 0 (Some 14)])
           EventEmitter_new, ()))) = None
   \<and> applications target_0_raises 0 ()
        (perform_all (example_history @ [AddListener 0 (Some 0), AddListener 0 (Some 14)])
           EventEmitter_new, ())
     = [\<lparr>target = 10, eventType_passed = 0, event_passed = (), outcome = None\<rparr>,
        \<lparr>target = 12, eventType_passed = 0, event_passed = (), outcome = None\<rparr>,
        \<lparr>target = 0, eventType_passed = 0, event_passed = (), outcome = Some CallbackRaised\<rparr>]
   \<and> fst (snd (emit target_0_raises 0 ()
        (perform_all (example_history @ [AddListener 0 (Some 0), AddListener 0 (Some 14)])
           EventEmitter_new, ()))) \<noteq> None"
proof -
  let ?cs = "example_history @ [AddListener 0 (Some 0), AddListener 0 (Some 14)]"
  have st: "perform_all ?cs EventEmitter_new
      = \<lparr>listeners = [(0, \<lparr>id' = 0, callback = Some 10\<rparr>), (0, \<lparr>id' = 2, callback = Some 12\<rparr>),
           (0, \<lparr>id' = 3, callback = Some 0\<rparr>), (0, \<lparr>id' = 4, callback = Some 14\<rparr>),
           (1, \<lparr>id' = 1, callback = Some 11\<rparr>)], lastListenerID = 5\<rparr>"
    by (simp add: example_history_def addListener_def EventEmitter_new_def to_int_def Let_def)
  have reg: "map snd (filter (\<lambda>p. fst p = 0) (registration_order ?cs EventEmitter_new []))
      = [\<lparr>id' = 0, callback = Some 10\<rparr>, \<lparr>id' = 2, callback = Some 12\<rparr>,
         \<lparr>id' = 3, callback = Some 0\<rparr>, \<lparr>id' = 4, callback = Some 14\<rparr>]"
    by (simp add: example_history_def addListener_def EventEmitter_new_def to_int_def Let_def)
  have a1: "applications returns_normally 0 () (perform_all ?cs EventEmitter_new, ())
     = [\<lparr>target = 10, eventType_passed = 0, event_passed = (), outcome = None\<rparr>,
        \<lparr>target = 12, eventType_passed = 0, event_passed = (), outcome = None\<rparr>,
        \<lparr>target = 0, eventType_passed = 0, event_passed = (), outcome = None\<rparr>,
        \<lparr>target = 14, eventType_passed = 0, event_passed = (), outcome = None\<rparr>]"
    unfolding st
    by (simp add: applications_def emit_def equal_range_def recorded_def returns_normally_def)
  have a2: "applications target_0_raises 0 () (perform_all ?cs EventEmitter_new, ())
     = [\<lparr>target = 10, eventType_passed = 0, event_passed = (), outcome = None\<rparr>,
        \<lparr>target = 12, eventType_passed = 0, event_passed = (), outcome = None\<rparr>,
        \<lparr>target = 0, eventType_passed = 0, event_passed = (), outcome = Some CallbackRaised\<rparr>]"
    unfolding st
    by (simp add: applications_def emit_def equal_range_def recorded_def target_0_raises_def)
  note t1 = emit_in_registration_order [of 0 ?cs returns_normally "()" "()"]
  note t2 = emit_in_registration_order [of 0 ?cs target_0_raises "()" "()"]
  have r1: "fst (snd (emit returns_normally 0 () (perform_all ?cs EventEmitter_new, ()))) = None"
    using t1 unfolding Let_def reg a1 by simp
  have r2: "fst (snd (emit target_0_raises 0 () (perform_all ?cs EventEmitter_new, ()))) \<noteq> None"
    using t2 unfolding Let_def reg a2 by simp
  show ?thesis using reg a1 a2 r1 r2 by simp
qed

text \<open>
  The claim as it stands, for all the listeners of an event type, fails: of three listeners
  registered for event type \<open>5\<close>, the third is not called when the callback of the second
  throws.
\<close>

theorem emit_stops_at_raise_counterexample:
  "map (callback \<circ> snd) (filter (\<lambda>p. fst p = 5)
      (listeners (perform_all
         [AddListener (5::nat) (Some 7), AddListener 5 (Some 0), AddListener 5 (Some 3)]
         EventEmitter_new)))
     = [Some 7, Some (0::nat), Some 3]
   \<and> applications target_0_raises 5 ()
        (perform_all [AddListener (5::nat) (Some 7), AddListener 5 (Some 0), AddListener 5 (Some 3)]
           EventEmitter_new, ())
     = [\<lparr>target = 7, eventType_passed = 5, event_passed = (), outcome = None\<rparr>,
        \<lparr>target = 0, eventType_passed = 5, event_passed = (), outcome = Some CallbackRaised\<rparr>]"
  by (simp add: addListener_def EventEmitter_new_def emit_def equal_range_def
      target_0_raises_def to_int_def Let_def applications_def recorded_def)

subsection \<open>C10: stored ids are below the counter\<close>

text \<open>
  C10, as amended. The counter of a new emitter is \<open>0\<close> and its map is empty; a successful
  addListener returns the counter (so \<open>0\<close> on a new emitter) and adds one to it modulo
  \<open>2 ^ 32\<close>. In every state reached from a new emitter by a sequence of calls with fewer
  than \<open>2 ^ 32\<close> successful addListener calls, every stored id is below the counter and the
  stored ids are pairwise distinct. That the stored ids are below the counter is preserved
  by addListener unless the counter is \<open>2 ^ 32 - 1\<close>, by removeListener, and by emit when
  the callbacks it calls preserve it.
\<close>

theorem ids_below_counter_invariant:
  "lastListenerID (EventEmitter_new :: ('k::linorder, 'cb) EventEmitter) = 0
   \<and> listeners (EventEmitter_new :: ('k, 'cb) EventEmitter) = []
   \<and> fst (addListener t (Some f) (EventEmitter_new :: ('k, 'cb) EventEmitter)) = Inr 0
   \<and> fst (addListener t (Some f) (em :: ('k, 'cb) EventEmitter)) = Inr (lastListenerID em)
   \<and> lastListenerID (snd (addListener t (Some f) em)) = lastListenerID em + 1
   \<and> (successful_adds cs < 2 ^ 32 \<longrightarrow>
        ids_below_counter (perform_all cs EventEmitter_new)
        \<and> distinct (stored_ids (perform_all cs EventEmitter_new)))
   \<and> (ids_below_counter em \<and> lastListenerID em \<noteq> - 1 \<longrightarrow>
        ids_below_counter (snd (addListener t cb em)))
   \<and> (ids_below_counter em \<longrightarrow> ids_below_counter (removeListener i em))
   \<and> ((\<forall>g s. ids_below_counter (fst s) \<longrightarrow> ids_below_counter (fst (snd (invoke g c e s))))
        \<and> ids_below_counter (fst s0) \<longrightarrow>
        ids_below_counter (fst (snd (snd (emit invoke c e s0)))))"
proof -
  have "ids_below_counter (fst (snd (snd (emit invoke c e s0))))"
    if "\<forall>g s. ids_below_counter (fst s) \<longrightarrow> ids_below_counter (fst (snd (invoke g c e s)))"
      and "ids_below_counter (fst s0)"
    using that by (rule emit_preserves)
  moreover have "ids_below_counter (perform_all cs EventEmitter_new)
        \<and> distinct (stored_ids (perform_all cs EventEmitter_new))"
    if "successful_adds cs < 2 ^ 32"
    using that new_ids_below_counter [of cs] new_stored_ids(2) [of cs] by simp
  ultimately show ?thesis
    by (simp add: fst_addListener lastListenerID_addListener ids_below_counter_addListener
        ids_below_counter_removeListener EventEmitter_new_def)
qed

theorem ids_below_counter_invariant_witness:
  "successful_adds example_history < 2 ^ 32
   \<and> ids_below_counter example_emitter
   \<and> distinct (stored_ids example_emitter)
   \<and> lastListenerID example_emitter \<noteq> - 1
   \<and> ids_below_counter (snd (addListener 0 (Some 13) example_emitter))
   \<and> ids_below_counter (removeListener 2 example_emitter)
   \<and> ids_below_counter (fst (snd (snd (emit returns_normally 0 () (example_emitter, ())))))"
proof -
  have h1: "successful_adds example_history < 2 ^ 32" by (simp add: example_history_def)
  have h2: "lastListenerID example_emitter \<noteq> - 1" by (simp add: example_emitter_state)
  have h3: "\<forall>g s. ids_below_counter (fst s) \<longrightarrow>
      ids_below_counter (fst (snd ((returns_normally :: (nat, nat, unit, unit) invoke) g 0 () s)))"
    by (simp add: returns_normally_def)
  note t = ids_below_counter_invariant
    [of 0 13 example_emitter example_history "Some 13" 2 returns_normally 0 "()" "(example_emitter, ())"]
  have a: "ids_below_counter example_emitter \<and> distinct (stored_ids example_emitter)"
    using t h1 unfolding example_emitter_def by blast
  then show ?thesis using t h1 h2 h3 by simp
qed

text \<open>
  Without the bound the claim fails: after \<open>2 ^ 32\<close> registrations the counter is \<open>0\<close>
  again, while the listener registered first is still stored with id \<open>0\<close>.
\<close>

theorem ids_below_counter_wrap_counterexample:
  "\<not> ids_below_counter (perform_all wrapping_history EventEmitter_new)"
  by (simp add: wrapping_history_state ids_below_counter_def stored_ids_def to_unsigned_def)

end
